theory Spec2Isabelle
  imports Complex_Main "HOL-Library.Sublist"
begin

section \<open>The crawler of \<^verbatim>\<open>web_scraper.py\<close>\<close>

text \<open>
  The class \<^verbatim>\<open>WebCrawler\<close> is embedded by explicit state passing. A Python \<^verbatim>\<open>str\<close> is a
  \<^typ>\<open>string\<close>, the instance (\<^verbatim>\<open>self\<close>) is a record, and everything the class reaches
  outside the repository (the HTTP session, the browser driver, the HTML parser, the URL
  library, the clock, the random generator, the file system) is a field of an environment
  record working on an opaque state \<^typ>\<open>'w\<close> of the outside world. A library call that
  stands inside a \<^verbatim>\<open>try\<close> block returns a sum, \<open>Inl\<close> carrying the message of the
  exception it raised; the library calls outside every \<^verbatim>\<open>try\<close> block are taken to return.
  The messages written to the logger by \<^verbatim>\<open>crawl\<close> and \<^verbatim>\<open>get_page_content\<close> are not part of
  the state.
\<close>

subsection \<open>Python strings\<close>

text \<open>\<^verbatim>\<open>sep.join(parts)\<close>.\<close>

fun join :: "string \<Rightarrow> string list \<Rightarrow> string" where
  "join sep [] = []"
| "join sep [x] = x"
| "join sep (x # y # ys) = x @ sep @ join sep (y # ys)"

text \<open>
  \<^verbatim>\<open>s.split(sep)\<close> for a separator that is not empty: the text is cut at the leftmost
  occurrence of the separator, then the rest is cut in the same way. The second argument
  holds, reversed, the characters read since the last cut. (Python raises \<^verbatim>\<open>ValueError\<close> for
  an empty separator; every separator below is a literal that is not empty.)
\<close>

function split_from :: "string \<Rightarrow> string \<Rightarrow> string \<Rightarrow> string list" where
  "split_from sep cur [] = [rev cur]"
| "split_from sep cur (c # cs) =
     (if sep \<noteq> [] \<and> prefix sep (c # cs)
      then rev cur # split_from sep [] (drop (length sep) (c # cs))
      else split_from sep (c # cur) cs)"
  by pat_completeness auto
termination
  by (relation "measure (\<lambda>(sep, cur, s). length s)") auto

definition split :: "string \<Rightarrow> string \<Rightarrow> string list" where
  "split sep s = split_from sep [] s"

text \<open>\<^verbatim>\<open>s.split(sep)[0]\<close>: the list that \<^verbatim>\<open>split\<close> returns is never empty.\<close>

definition split_first :: "string \<Rightarrow> string \<Rightarrow> string" where
  "split_first sep s = (case split sep s of [] \<Rightarrow> [] | p # ps \<Rightarrow> p)"

text \<open>\<^verbatim>\<open>sub in s\<close> for strings.\<close>

fun contains :: "string \<Rightarrow> string \<Rightarrow> bool" where
  "contains sub [] = (sub = [])"
| "contains sub (c # cs) = (prefix sub (c # cs) \<or> contains sub cs)"

text \<open>
  A character of the model is a code point up to U+00FF. \<^verbatim>\<open>s.lower()\<close> on such text: the
  letters A to Z (65 to 90) and the accented capital letters from U+00C0 to U+00DE, the
  multiplication sign U+00D7 excepted, go to the code point 32 above; every other
  character stays (the small letters, the sharp s U+00DF, the micro sign U+00B5 and the
  ordinal indicators included).
\<close>

definition lower_char :: "char \<Rightarrow> char" where
  "lower_char c =
     (let n = (of_char c :: nat)
      in if (65 \<le> n \<and> n \<le> 90) \<or> (192 \<le> n \<and> n \<le> 222 \<and> n \<noteq> 215)
         then char_of (n + 32) else c)"

definition lower :: "string \<Rightarrow> string" where
  "lower s = map lower_char s"

text \<open>\<^verbatim>\<open>s.endswith(ext)\<close>.\<close>

definition endswith :: "string \<Rightarrow> string \<Rightarrow> bool" where
  "endswith s ext = suffix ext s"

text \<open>\<^verbatim>\<open>xs[:n]\<close>: a negative bound counts from the end, and the slice never raises.\<close>

definition slice_to :: "int \<Rightarrow> 'a list \<Rightarrow> 'a list" where
  "slice_to n xs = (if 0 \<le> n then take (nat n) xs else take (length xs - nat (- n)) xs)"

subsection \<open>Configuration, records and the crawler's state\<close>

text \<open>
  The configuration dictionary, each field holding what \<^verbatim>\<open>config.get(key, default)\<close>
  returns. \<open>max_pages = None\<close> is the default \<^verbatim>\<open>float('inf')\<close>. Delays are in seconds.
\<close>

record config =
  start_url :: string
  max_depth :: int
  max_pages :: "int option"
  max_queue_size :: int
  request_delay :: rat
  selenium_wait :: rat
  restrict_to_domain :: bool
  ignore_extensions :: "string list"
  ignore_url_params :: bool
  breadth_first :: bool
  use_selenium :: bool
  content_selectors :: "string list"

text \<open>
  A heading field of a page record holds a list of texts when the record is created and a
  single string once \<^verbatim>\<open>export_to_csv\<close> has flattened it.
\<close>

datatype heading = Texts "string list" | Flat string

record page_data =
  url :: string
  title :: string
  meta_description :: string
  h1 :: heading
  h2 :: heading
  h3_plus :: heading
  body_text :: string
  date_crawled :: string
  errors :: string

text \<open>
  What the parsed document answers to the queries of the crawler. \<open>find_all_a_href\<close> are
  the \<^verbatim>\<open>href\<close> values of \<^verbatim>\<open>soup.find_all('a', href=True)\<close> in document order. The other
  queries are made inside the \<^verbatim>\<open>try\<close> block of \<^verbatim>\<open>extract_text_elements\<close> and may raise:
  \<open>find_title\<close> is the stripped text of the first \<^verbatim>\<open>title\<close> element, \<open>find_meta_description\<close>
  the \<^verbatim>\<open>content\<close> attribute of the description \<^verbatim>\<open>meta\<close> element, \<open>find_all_h i\<close> the stripped
  texts of the \<^verbatim>\<open>h\<close>\<open>i\<close> elements, and \<open>main_content_text sels\<close> the whitespace-normalised text
  of the main content region chosen by the selectors \<open>sels\<close> (\<open>None\<close> when there is neither a
  match nor a body).
\<close>

record soup =
  find_all_a_href :: "string list"
  find_title :: "string + string option"
  find_meta_description :: "string + string option"
  find_all_h :: "nat \<Rightarrow> string + string list"
  main_content_text :: "string list \<Rightarrow> string + string option"

text \<open>
  The libraries and the outside world. \<open>session_get\<close> is \<^verbatim>\<open>session.get\<close> followed by
  \<^verbatim>\<open>raise_for_status\<close> and \<^verbatim>\<open>response.text\<close>, retries included; \<open>driver_get\<close> and
  \<open>driver_page_source\<close> are the two browser calls; \<open>decompose\<close> is the loop that removes the
  navigation, header, footer, script, style and iframe elements from the document, giving
  the document as the loop left it and the message of the exception when it raised;
  \<open>fs_open\<close> opens the named file for
  writing and \<open>csv_write\<close> is \<^verbatim>\<open>writeheader\<close> followed by \<^verbatim>\<open>writerows\<close> of a \<^verbatim>\<open>DictWriter\<close> with
  the given field names on that file.
\<close>

record 'w env =
  validators_url :: "string \<Rightarrow> bool"
  urlparse_netloc :: "string \<Rightarrow> string"
  urljoin :: "string \<Rightarrow> string \<Rightarrow> string"
  robots_read :: "string \<Rightarrow> 'w \<Rightarrow> 'w"
  session_get :: "string \<Rightarrow> 'w \<Rightarrow> (string + string) \<times> 'w"
  driver_get :: "string \<Rightarrow> 'w \<Rightarrow> (string + unit) \<times> 'w"
  driver_page_source :: "'w \<Rightarrow> (string + string) \<times> 'w"
  driver_quit :: "'w \<Rightarrow> 'w"
  parse_html :: "string \<Rightarrow> soup"
  decompose :: "soup \<Rightarrow> string option \<times> soup"
  now :: "'w \<Rightarrow> string"
  shuffle :: "string list \<Rightarrow> 'w \<Rightarrow> string list \<times> 'w"
  fs_open :: "string \<Rightarrow> 'w \<Rightarrow> (string + unit) \<times> 'w"
  csv_write :: "string \<Rightarrow> string list \<Rightarrow> page_data list \<Rightarrow> 'w \<Rightarrow> (string + unit) \<times> 'w"

text \<open>
  The instance. The first five fields are the attributes of \<^verbatim>\<open>self\<close>; \<open>world\<close> is the
  state of the outside world. The last three fields are instrumentation that no branch
  reads: \<open>visit_log\<close> lists the URLs in the order in which they were added to
  \<open>visited_urls\<close>, \<open>fetch_log\<close> the URLs \<^verbatim>\<open>get_page_content\<close> was called with, and
  \<open>sleep_log\<close> the arguments of the calls of \<^verbatim>\<open>time.sleep\<close> that returned.
\<close>

record 'w crawler =
  visited_urls :: "string set"
  urls_to_visit :: "string list"
  current_depth :: int
  data :: "page_data list"
  domain :: string
  world :: 'w
  visit_log :: "string list"
  fetch_log :: "string list"
  sleep_log :: "rat list"

text \<open>\<^verbatim>\<open>WebCrawler.__init__\<close>; the outcome of reading \<^verbatim>\<open>robots.txt\<close> is only logged.\<close>

definition init :: "'w env \<Rightarrow> config \<Rightarrow> 'w \<Rightarrow> 'w crawler" where
  "init env cfg w =
     \<lparr>visited_urls = {},
      urls_to_visit = [start_url cfg],
      current_depth = 0,
      data = [],
      domain = urlparse_netloc env (start_url cfg),
      world = robots_read env (urljoin env (start_url cfg) ''/robots.txt'') w,
      visit_log = [],
      fetch_log = [],
      sleep_log = []\<rparr>"

subsection \<open>Validation and fetching\<close>

text \<open>\<^verbatim>\<open>can_fetch\<close>: the check of \<^verbatim>\<open>robots.txt\<close> is bypassed.\<close>

definition can_fetch :: "string \<Rightarrow> bool" where
  "can_fetch u = True"

definition is_valid_url :: "'w env \<Rightarrow> config \<Rightarrow> 'w crawler \<Rightarrow> string \<Rightarrow> bool" where
  "is_valid_url env cfg s u =
     (if \<not> validators_url env u then False
      else if restrict_to_domain cfg \<and> urlparse_netloc env u \<noteq> domain s then False
      else if list_ex (\<lambda>ext. endswith (lower u) ext) (ignore_extensions cfg) then False
      else True)"

text \<open>\<^verbatim>\<open>time.sleep(d)\<close> raises \<^verbatim>\<open>ValueError\<close> for a negative \<open>d\<close>.\<close>

definition time_sleep :: "rat \<Rightarrow> 'w crawler \<Rightarrow> string + 'w crawler" where
  "time_sleep d s =
     (if d < 0 then Inl ''sleep length must be non-negative''
      else Inr (s\<lparr>sleep_log := sleep_log s @ [d]\<rparr>))"

text \<open>The last two statements of the \<^verbatim>\<open>try\<close> block: the delay, then the return.\<close>

definition rate_limit_then_return ::
  "config \<Rightarrow> string \<Rightarrow> 'w crawler \<Rightarrow> (string + string option) \<times> 'w crawler" where
  "rate_limit_then_return cfg html s =
     (case time_sleep (request_delay cfg) s of
        Inl e \<Rightarrow> (Inl e, s)
      | Inr s' \<Rightarrow> (Inr (Some html), s'))"

text \<open>The \<^verbatim>\<open>try\<close> block of \<^verbatim>\<open>get_page_content\<close>; \<open>Inl\<close> is an exception leaving the block.\<close>

definition fetch_body ::
  "'w env \<Rightarrow> config \<Rightarrow> string \<Rightarrow> 'w crawler \<Rightarrow> (string + string option) \<times> 'w crawler" where
  "fetch_body env cfg u s =
     (if \<not> can_fetch u then (Inr None, s)
      else if use_selenium cfg then
        (case driver_get env u (world s) of
           (Inl e, w1) \<Rightarrow> (Inl e, s\<lparr>world := w1\<rparr>)
         | (Inr _, w1) \<Rightarrow>
             (case time_sleep (selenium_wait cfg) (s\<lparr>world := w1\<rparr>) of
                Inl e \<Rightarrow> (Inl e, s\<lparr>world := w1\<rparr>)
              | Inr s2 \<Rightarrow>
                  (case driver_page_source env (world s2) of
                     (Inl e, w3) \<Rightarrow> (Inl e, s2\<lparr>world := w3\<rparr>)
                   | (Inr html, w3) \<Rightarrow> rate_limit_then_return cfg html (s2\<lparr>world := w3\<rparr>))))
      else
        (case session_get env u (world s) of
           (Inl e, w1) \<Rightarrow> (Inl e, s\<lparr>world := w1\<rparr>)
         | (Inr html, w1) \<Rightarrow> rate_limit_then_return cfg html (s\<lparr>world := w1\<rparr>)))"

text \<open>
  \<^verbatim>\<open>get_page_content\<close>: the content, or \<open>None\<close> when the block raised (the handler logs the
  exception and returns \<^verbatim>\<open>None\<close>).
\<close>

definition get_page_content ::
  "'w env \<Rightarrow> config \<Rightarrow> string \<Rightarrow> 'w crawler \<Rightarrow> string option \<times> 'w crawler" where
  "get_page_content env cfg u s =
     (case fetch_body env cfg u (s\<lparr>fetch_log := fetch_log s @ [u]\<rparr>) of
        (Inl e, s') \<Rightarrow> (None, s')
      | (Inr r, s') \<Rightarrow> (r, s'))"

subsection \<open>Link extraction\<close>

text \<open>The absolute URL of one anchor, fragment and query removed when so configured.\<close>

definition absolute_url :: "'w env \<Rightarrow> config \<Rightarrow> string \<Rightarrow> string \<Rightarrow> string" where
  "absolute_url env cfg base_url href =
     (let a = urljoin env base_url href
      in if ignore_url_params cfg then split_first ''?'' (split_first ''#'' a) else a)"

text \<open>The loop of \<^verbatim>\<open>extract_links\<close> over the anchors, \<open>links\<close> being the list built so far.\<close>

fun collect_links ::
  "'w env \<Rightarrow> config \<Rightarrow> 'w crawler \<Rightarrow> string \<Rightarrow> string list \<Rightarrow> string list \<Rightarrow> string list" where
  "collect_links env cfg s base_url [] links = links"
| "collect_links env cfg s base_url (href # hrefs) links =
     (let a = absolute_url env cfg base_url href
      in if is_valid_url env cfg s a \<and> a \<notin> visited_urls s \<and> a \<notin> set (urls_to_visit s)
         then collect_links env cfg s base_url hrefs (links @ [a])
         else collect_links env cfg s base_url hrefs links)"

definition extract_links :: "'w env \<Rightarrow> config \<Rightarrow> 'w crawler \<Rightarrow> soup \<Rightarrow> string \<Rightarrow> string list" where
  "extract_links env cfg s sp base_url = collect_links env cfg s base_url (find_all_a_href sp) []"

subsection \<open>Content extraction\<close>

text \<open>The loop over \<^verbatim>\<open>h3\<close> to \<^verbatim>\<open>h6\<close>, each text prefixed with its tag.\<close>

fun h3_plus_loop :: "soup \<Rightarrow> (nat \<times> string) list \<Rightarrow> string list \<Rightarrow> string + string list" where
  "h3_plus_loop sp [] acc = Inr acc"
| "h3_plus_loop sp ((i, tag) # rest) acc =
     (case find_all_h sp i of
        Inl e \<Rightarrow> Inl e
      | Inr ts \<Rightarrow> h3_plus_loop sp rest (acc @ map (\<lambda>t. tag @ '': '' @ t) ts))"

text \<open>
  The statements of the \<^verbatim>\<open>try\<close> block of \<^verbatim>\<open>extract_text_elements\<close>, each one either
  raising (\<open>Inl\<close>) or returning the record with one more field filled.
\<close>

definition set_title :: "soup \<Rightarrow> page_data \<Rightarrow> string + page_data" where
  "set_title sp pd =
     (case find_title sp of
        Inl e \<Rightarrow> Inl e
      | Inr None \<Rightarrow> Inr pd
      | Inr (Some x) \<Rightarrow> Inr (pd\<lparr>title := x\<rparr>))"

definition set_meta_description :: "soup \<Rightarrow> page_data \<Rightarrow> string + page_data" where
  "set_meta_description sp pd =
     (case find_meta_description sp of
        Inl e \<Rightarrow> Inl e
      | Inr None \<Rightarrow> Inr pd
      | Inr (Some x) \<Rightarrow> Inr (pd\<lparr>meta_description := x\<rparr>))"

definition set_h1 :: "soup \<Rightarrow> page_data \<Rightarrow> string + page_data" where
  "set_h1 sp pd =
     (case find_all_h sp 1 of Inl e \<Rightarrow> Inl e | Inr ts \<Rightarrow> Inr (pd\<lparr>h1 := Texts ts\<rparr>))"

definition set_h2 :: "soup \<Rightarrow> page_data \<Rightarrow> string + page_data" where
  "set_h2 sp pd =
     (case find_all_h sp 2 of Inl e \<Rightarrow> Inl e | Inr ts \<Rightarrow> Inr (pd\<lparr>h2 := Texts ts\<rparr>))"

definition set_h3_plus :: "soup \<Rightarrow> page_data \<Rightarrow> string + page_data" where
  "set_h3_plus sp pd =
     (case h3_plus_loop sp [(3, ''h3''), (4, ''h4''), (5, ''h5''), (6, ''h6'')] [] of
        Inl e \<Rightarrow> Inl e
      | Inr hs \<Rightarrow> Inr (pd\<lparr>h3_plus := Texts hs\<rparr>))"

definition set_body_text :: "config \<Rightarrow> soup \<Rightarrow> page_data \<Rightarrow> string + page_data" where
  "set_body_text cfg sp pd =
     (case main_content_text sp (content_selectors cfg) of
        Inl e \<Rightarrow> Inl e
      | Inr None \<Rightarrow> Inr pd
      | Inr (Some x) \<Rightarrow> Inr (pd\<lparr>body_text := x\<rparr>))"

text \<open>
  Running statements in order: the record as far as it was filled, with the message of
  the exception when one was raised (no statement runs after it).
\<close>

fun run_steps ::
  "(page_data \<Rightarrow> string + page_data) list \<Rightarrow> page_data \<Rightarrow> string option \<times> page_data" where
  "run_steps [] pd = (None, pd)"
| "run_steps (f # fs) pd =
     (case f pd of Inl e \<Rightarrow> (Some e, pd) | Inr pd' \<Rightarrow> run_steps fs pd')"

text \<open>
  The \<^verbatim>\<open>try\<close> block: title, description and headings are read from the document as it was
  parsed; then the elements that are not content are removed from the document itself;
  then the body text is read from what is left. The result is the exception (if any), the
  record, and the document as the block left it.
\<close>

definition try_extract ::
  "'w env \<Rightarrow> config \<Rightarrow> soup \<Rightarrow> page_data \<Rightarrow> string option \<times> page_data \<times> soup" where
  "try_extract env cfg sp pd =
     (case run_steps
             [set_title sp, set_meta_description sp, set_h1 sp, set_h2 sp, set_h3_plus sp] pd of
        (Some e, pd1) \<Rightarrow> (Some e, pd1, sp)
      | (None, pd1) \<Rightarrow>
          (case decompose env sp of
             (Some e, sp') \<Rightarrow> (Some e, pd1, sp')
           | (None, sp') \<Rightarrow>
               (case set_body_text cfg sp' pd1 of
                  Inl e \<Rightarrow> (Some e, pd1, sp')
                | Inr pd2 \<Rightarrow> (None, pd2, sp'))))"

text \<open>
  \<^verbatim>\<open>extract_text_elements\<close>: the record, and the document as the call left it (the caller
  goes on using the same document).
\<close>

definition extract_text_elements ::
  "'w env \<Rightarrow> config \<Rightarrow> soup \<Rightarrow> string \<Rightarrow> 'w \<Rightarrow> page_data \<times> soup" where
  "extract_text_elements env cfg sp u w =
     (let page_data =
        \<lparr>url = u, title = [], meta_description = [], h1 = Texts [], h2 = Texts [],
         h3_plus = Texts [], body_text = [], date_crawled = now env w, errors = []\<rparr>
      in case try_extract env cfg sp page_data of
           (None, pd, sp') \<Rightarrow> (pd, sp')
         | (Some e, pd, sp') \<Rightarrow> (pd\<lparr>errors := ''Error extracting content: '' @ e\<rparr>, sp'))"

subsection \<open>The crawl\<close>

text \<open>\<^verbatim>\<open>len(self.visited_urls) >= self.config.get('max_pages', float('inf'))\<close>.\<close>

definition reached_max_pages :: "config \<Rightarrow> 'w crawler \<Rightarrow> bool" where
  "reached_max_pages cfg s =
     (case max_pages cfg of None \<Rightarrow> False | Some n \<Rightarrow> n \<le> int (card (visited_urls s)))"

text \<open>
  The body of the \<^verbatim>\<open>for\<close> loop for one URL. The first component tells whether the body
  left the loop by \<^verbatim>\<open>break\<close>.
\<close>

definition process_url :: "'w env \<Rightarrow> config \<Rightarrow> string \<Rightarrow> 'w crawler \<Rightarrow> bool \<times> 'w crawler" where
  "process_url env cfg u s =
     (if u \<in> visited_urls s then (False, s)
      else
        let s1 = s\<lparr>visited_urls := insert u (visited_urls s), visit_log := visit_log s @ [u]\<rparr>
        in if reached_max_pages cfg s1 then (True, s1)
           else
             (case get_page_content env cfg u s1 of
                (None, s2) \<Rightarrow> (False, s2)
              | (Some html_content, s2) \<Rightarrow>
                  if html_content = [] then (False, s2)
                  else
                    let sp = parse_html env html_content;
                        (page, sp') = extract_text_elements env cfg sp u (world s2);
                        s3 = s2\<lparr>data := data s2 @ [page]\<rparr>
                    in if current_depth s3 < max_depth cfg
                       then (False,
                             s3\<lparr>urls_to_visit := urls_to_visit s3 @ extract_links env cfg s3 sp' u\<rparr>)
                       else (False, s3)))"

text \<open>The \<^verbatim>\<open>for\<close> loop over the URLs of the current depth.\<close>

fun crawl_batch :: "'w env \<Rightarrow> config \<Rightarrow> string list \<Rightarrow> 'w crawler \<Rightarrow> 'w crawler" where
  "crawl_batch env cfg [] s = s"
| "crawl_batch env cfg (u # us) s =
     (case process_url env cfg u s of
        (brk, s') \<Rightarrow> if brk then s' else crawl_batch env cfg us s')"

text \<open>One pass of the body of the \<^verbatim>\<open>while\<close> loop.\<close>

definition crawl_depth :: "'w env \<Rightarrow> config \<Rightarrow> 'w crawler \<Rightarrow> 'w crawler" where
  "crawl_depth env cfg s =
     (let urls_at_current_depth = urls_to_visit s;
          s1 = crawl_batch env cfg urls_at_current_depth (s\<lparr>urls_to_visit := []\<rparr>);
          s2 = s1\<lparr>current_depth := current_depth s1 + 1\<rparr>;
          s3 = (if \<not> breadth_first cfg
                then (case shuffle env (urls_to_visit s2) (world s2) of
                        (us, w) \<Rightarrow> s2\<lparr>urls_to_visit := us, world := w\<rparr>)
                else s2)
      in if max_queue_size cfg < int (length (urls_to_visit s3))
         then s3\<lparr>urls_to_visit := slice_to (max_queue_size cfg) (urls_to_visit s3)\<rparr>
         else s3)"

text \<open>
  The \<^verbatim>\<open>while\<close> loop. It ends because every pass adds one to \<open>current_depth\<close>, which the
  loop condition bounds by \<open>max_depth\<close>.
\<close>

function crawl_loop :: "'w env \<Rightarrow> config \<Rightarrow> 'w crawler \<Rightarrow> 'w crawler" where
  "crawl_loop env cfg s =
     (if urls_to_visit s \<noteq> [] \<and> current_depth s \<le> max_depth cfg
      then crawl_loop env cfg (crawl_depth env cfg s)
      else s)"
  by pat_completeness auto
termination
proof (relation "measure (\<lambda>(env, cfg, s). nat (max_depth cfg + 1 - current_depth s))")
  show "wf (measure (\<lambda>(env :: 'w env, cfg, s). nat (max_depth cfg + 1 - current_depth s)))"
    by simp
next
  fix env :: "'w env" and cfg :: config and s :: "'w crawler"
  assume run: "urls_to_visit s \<noteq> [] \<and> current_depth s \<le> max_depth cfg"
  have fetch: "current_depth (snd (fetch_body env cfg u t)) = current_depth t" for u t
    by (auto simp: fetch_body_def rate_limit_then_return_def time_sleep_def
        split: sum.splits prod.splits if_splits)
  have page: "current_depth (snd (get_page_content env cfg u t)) = current_depth t" for u t
    using fetch [of u "t\<lparr>fetch_log := fetch_log t @ [u]\<rparr>"]
    by (auto simp: get_page_content_def split: sum.splits prod.splits)
  have one: "current_depth (snd (process_url env cfg u t)) = current_depth t" for u t
    using page [of u "t\<lparr>visited_urls := insert u (visited_urls t),
      visit_log := visit_log t @ [u]\<rparr>"]
    by (auto simp: process_url_def Let_def split: prod.splits option.splits)
  have batch: "current_depth (crawl_batch env cfg us t) = current_depth t" for us t
  proof (induction us arbitrary: t)
    case Nil
    show ?case by simp
  next
    case (Cons u us)
    show ?case using one [of u t] Cons.IH by (auto split: prod.splits)
  qed
  have "current_depth (crawl_depth env cfg s) = current_depth s + 1"
    by (auto simp: crawl_depth_def Let_def batch split: prod.splits)
  with run show "((env, cfg, crawl_depth env cfg s), (env, cfg, s))
      \<in> measure (\<lambda>(env, cfg, s). nat (max_depth cfg + 1 - current_depth s))"
    by simp
qed

text \<open>\<^verbatim>\<open>crawl\<close>: the loop, then the browser is closed when one was used.\<close>

definition crawl :: "'w env \<Rightarrow> config \<Rightarrow> 'w crawler \<Rightarrow> 'w crawler" where
  "crawl env cfg s =
     (let s' = crawl_loop env cfg s
      in if use_selenium cfg then s'\<lparr>world := driver_quit env (world s')\<rparr> else s')"

subsection \<open>Export\<close>

text \<open>
  \<^verbatim>\<open>' | '.join(item[key])\<close>: a list of texts is joined; a field that already is a string is
  iterated character by character, as Python iterates a \<^verbatim>\<open>str\<close>.
\<close>

definition separator :: string where
  "separator = '' | ''"

fun join_heading :: "heading \<Rightarrow> heading" where
  "join_heading (Texts ts) = Flat (join separator ts)"
| "join_heading (Flat s) = Flat (join separator (map (\<lambda>c. [c]) s))"

definition flatten_item :: "page_data \<Rightarrow> page_data" where
  "flatten_item item =
     item\<lparr>h1 := join_heading (h1 item), h2 := join_heading (h2 item),
          h3_plus := join_heading (h3_plus item)\<rparr>"

text \<open>\<^verbatim>\<open>self.data[0].keys()\<close>: every record is created with the same keys in this order.\<close>

definition fieldnames :: "string list" where
  "fieldnames =
     [''url'', ''title'', ''meta_description'', ''h1'', ''h2'', ''h3_plus'', ''body_text'',
      ''date_crawled'', ''errors'']"

text \<open>
  What a call of a Python function hands to its caller: a returned value or a raised
  exception; and the values \<^verbatim>\<open>export_to_csv\<close> could return.
\<close>

datatype pyvalue = PyNone | PyBool bool

datatype 'a outcome = Returns 'a | Raises string

datatype level = INFO | WARNING | ERROR

text \<open>
  \<^verbatim>\<open>export_to_csv\<close>: the outcome for the caller, the messages logged, and the instance
  after the call. The file is opened first; the records are flattened in place once it is
  open; then the rows are written. The handler of the \<^verbatim>\<open>try\<close> block logs the exception and
  the method ends without a \<^verbatim>\<open>return\<close> statement.
\<close>

record 'w exported =
  outcome :: "pyvalue outcome"
  logged :: "(level \<times> string) list"
  after :: "'w crawler"

definition export_to_csv :: "'w env \<Rightarrow> string \<Rightarrow> 'w crawler \<Rightarrow> 'w exported" where
  "export_to_csv env filename s =
     (if data s = [] then
        \<lparr>outcome = Returns PyNone, logged = [(WARNING, ''No data to export'')], after = s\<rparr>
      else
        (case fs_open env filename (world s) of
           (Inl e, w1) \<Rightarrow>
             \<lparr>outcome = Returns PyNone,
              logged = [(ERROR, ''Error exporting data to CSV: '' @ e)],
              after = s\<lparr>world := w1\<rparr>\<rparr>
         | (Inr _, w1) \<Rightarrow>
             let s1 = s\<lparr>data := map flatten_item (data s), world := w1\<rparr>
             in (case csv_write env filename fieldnames (data s1) (world s1) of
                   (Inl e, w2) \<Rightarrow>
                     \<lparr>outcome = Returns PyNone,
                      logged = [(ERROR, ''Error exporting data to CSV: '' @ e)],
                      after = s1\<lparr>world := w2\<rparr>\<rparr>
                 | (Inr _, w2) \<Rightarrow>
                     \<lparr>outcome = Returns PyNone,
                      logged = [(INFO, ''Data exported to '' @ filename)],
                      after = s1\<lparr>world := w2\<rparr>\<rparr>)))"

subsection \<open>The claim of a case-insensitive suffix, in the words of the specification\<close>

text \<open>
  ``The URL ends (case-insensitively) with the extension'': the two texts are compared
  with the case of both of them ignored. (The code compares \<open>lower u\<close> with the extension
  as it is configured.)
\<close>

definition ends_with_ignoring_case :: "string \<Rightarrow> string \<Rightarrow> bool" where
  "ends_with_ignoring_case u ext = suffix (lower ext) (lower u)"

subsection \<open>A small site to run the crawler on\<close>

text \<open>
  A document with the given anchors and nothing else, and a record with the given level-1
  headings.
\<close>

definition page :: "string list \<Rightarrow> soup" where
  "page hrefs =
     \<lparr>find_all_a_href = hrefs, find_title = Inr None, find_meta_description = Inr None,
      find_all_h = (\<lambda>i. Inr []), main_content_text = (\<lambda>sels. Inr None)\<rparr>"

definition record_with_h1 :: "string \<Rightarrow> string list \<Rightarrow> page_data" where
  "record_with_h1 u ts =
     \<lparr>url = u, title = [], meta_description = [], h1 = Texts ts, h2 = Texts [],
      h3_plus = Texts [], body_text = [], date_crawled = ''2025-04-27 12:00:00'',
      errors = []\<rparr>"

text \<open>
  The outside world of the examples is the list of the files written so far, each with
  its rows. A site is a table from each URL that exists to the anchors of its page; the
  content served for a URL is the URL itself, a request for any other URL fails, every
  URL with the scheme \<^verbatim>\<open>http\<close> is valid and on the host of the seed, anchors are absolute, no anchor stands in an
  element that is removed, and the shuffle leaves the order as it is. In \<open>site_env\<close> every file can be written; in \<open>readonly_env\<close> opening a
  file for writing fails; in \<open>full_disk_env\<close> the file opens and writing the rows fails; in
  \<open>blank_env\<close> every request is answered with success and an empty body.
\<close>

type_synonym files = "(string \<times> page_data list) list"

definition site_env :: "(string \<times> string list) list \<Rightarrow> files env" where
  "site_env site =
     \<lparr>validators_url = (\<lambda>u. True),
      urlparse_netloc = (\<lambda>u. ''x.org''),
      urljoin = (\<lambda>base_url href. href),
      robots_read = (\<lambda>u w. w),
      session_get =
        (\<lambda>u w. (case map_of site u of None \<Rightarrow> Inl ''404 Client Error'' | Some hs \<Rightarrow> Inr u, w)),
      driver_get = (\<lambda>u w. (Inr (), w)),
      driver_page_source = (\<lambda>w. (Inr [], w)),
      driver_quit = (\<lambda>w. w),
      parse_html = (\<lambda>html. page (case map_of site html of None \<Rightarrow> [] | Some hs \<Rightarrow> hs)),
      decompose = (\<lambda>sp. (None, sp)),
      now = (\<lambda>w. ''2025-04-27 12:00:00''),
      shuffle = (\<lambda>us w. (us, w)),
      fs_open = (\<lambda>f w. (Inr (), w)),
      csv_write = (\<lambda>f names rows w. (Inr (), w @ [(f, rows)]))\<rparr>"

definition readonly_env :: "(string \<times> string list) list \<Rightarrow> files env" where
  "readonly_env site = (site_env site)\<lparr>fs_open := (\<lambda>f w. (Inl ''Permission denied'', w))\<rparr>"


definition full_disk_env :: "(string \<times> string list) list \<Rightarrow> files env" where
  "full_disk_env site =
     (site_env site)\<lparr>csv_write := (\<lambda>f names rows w. (Inl ''No space left on device'', w))\<rparr>"

text \<open>
  The configuration of the examples for a seed, a depth bound and a page bound: the
  defaults of the code where it has one, and two ignored extensions.
\<close>

definition example_config :: "string \<Rightarrow> int \<Rightarrow> int option \<Rightarrow> config" where
  "example_config seed depth pages =
     \<lparr>start_url = seed, max_depth = depth, max_pages = pages, max_queue_size = 1000,
      request_delay = 1, selenium_wait = 2, restrict_to_domain = True,
      ignore_extensions = [''.pdf'', ''.jpg''], ignore_url_params = True,
      breadth_first = True, use_selenium = False,
      content_selectors = [''main'', ''article'', ''#content'', ''.content'']\<rparr>"

text \<open>
  The seed, the root of the site, links to the pages \<open>a\<close> and \<open>b\<close>, and \<open>a\<close> links to \<open>c\<close>. On
  the second site the seed is a PDF document.
\<close>

definition example_site :: "(string \<times> string list) list" where
  "example_site =
     [(''http://x.org/'', [''http://x.org/a'', ''http://x.org/b'']),
      (''http://x.org/a'', [''http://x.org/c'']),
      (''http://x.org/b'', []),
      (''http://x.org/c'', [])]"

definition pdf_site :: "(string \<times> string list) list" where
  "pdf_site = [(''http://x.org/report.pdf'', [])]"

text \<open>An instance that holds one record, as a crawl of one page leaves it.\<close>

definition crawled_one :: "string list \<Rightarrow> files crawler" where
  "crawled_one ts =
     (init (site_env example_site) (example_config ''http://x.org/'' 3 None) [])
       \<lparr>visited_urls := {''http://x.org/''}, urls_to_visit := [], current_depth := 1,
        data := [record_with_h1 ''http://x.org/'' ts], visit_log := [''http://x.org/''], fetch_log := [''http://x.org/''],
        sleep_log := [1]\<rparr>"

subsection \<open>What holds along a crawl\<close>

text \<open>
  The URLs of the visit log that were added while the page bound was not yet reached, and
  the invariant of the crawl: the visit log lists the visited set without repetition, the
  fetched URLs are that part of the visit log, and the records were made, in order, for
  fetched URLs.
\<close>

definition fetched_prefix :: "config \<Rightarrow> string list \<Rightarrow> string list" where
  "fetched_prefix cfg vl = (case max_pages cfg of None \<Rightarrow> vl | Some n \<Rightarrow> take (nat (n - 1)) vl)"

definition crawl_inv :: "config \<Rightarrow> 'w crawler \<Rightarrow> bool" where
  "crawl_inv cfg s =
     (distinct (visit_log s) \<and> set (visit_log s) = visited_urls s \<and>
      fetch_log s = fetched_prefix cfg (visit_log s) \<and>
      subseq (map url (data s)) (fetch_log s))"


text \<open>
  A URL is admitted when it is the seed or passes \<^verbatim>\<open>is_valid_url\<close>; along a crawl every
  queued URL and the URL of every record is admitted.
\<close>

definition admitted :: "'w env \<Rightarrow> config \<Rightarrow> 'w crawler \<Rightarrow> string \<Rightarrow> bool" where
  "admitted env cfg s u = (u = start_url cfg \<or> is_valid_url env cfg s u)"

definition queue_inv :: "'w env \<Rightarrow> config \<Rightarrow> 'w crawler \<Rightarrow> bool" where
  "queue_inv env cfg s =
     (list_all (admitted env cfg s) (urls_to_visit s) \<and>
      list_all (\<lambda>r. admitted env cfg s (url r)) (data s))"

section \<open>Properties\<close>

subsection \<open>Frames of the operations\<close>

declare crawl_loop.simps [simp del]

lemma fetch_body_frame:
  "visited_urls (snd (fetch_body env cfg u s)) = visited_urls s \<and>
   urls_to_visit (snd (fetch_body env cfg u s)) = urls_to_visit s \<and>
   current_depth (snd (fetch_body env cfg u s)) = current_depth s \<and>
   data (snd (fetch_body env cfg u s)) = data s \<and>
   domain (snd (fetch_body env cfg u s)) = domain s \<and>
   visit_log (snd (fetch_body env cfg u s)) = visit_log s \<and>
   fetch_log (snd (fetch_body env cfg u s)) = fetch_log s"
  by (auto simp: fetch_body_def rate_limit_then_return_def time_sleep_def
      split: sum.splits prod.splits if_splits)


lemma get_page_content_frame:
  "visited_urls (snd (get_page_content env cfg u s)) = visited_urls s \<and>
   urls_to_visit (snd (get_page_content env cfg u s)) = urls_to_visit s \<and>
   current_depth (snd (get_page_content env cfg u s)) = current_depth s \<and>
   data (snd (get_page_content env cfg u s)) = data s \<and>
   domain (snd (get_page_content env cfg u s)) = domain s \<and>
   visit_log (snd (get_page_content env cfg u s)) = visit_log s \<and>
   fetch_log (snd (get_page_content env cfg u s)) = fetch_log s @ [u]"
proof -
  obtain r t where fb: "fetch_body env cfg u (s\<lparr>fetch_log := fetch_log s @ [u]\<rparr>) = (r, t)"
    by (cases "fetch_body env cfg u (s\<lparr>fetch_log := fetch_log s @ [u]\<rparr>)") blast
  have "snd (get_page_content env cfg u s) = t"
    by (simp add: get_page_content_def fb split: sum.splits)
  moreover have "t = snd (fetch_body env cfg u (s\<lparr>fetch_log := fetch_log s @ [u]\<rparr>))"
    by (simp add: fb)
  ultimately show ?thesis
    using fetch_body_frame [of env cfg u "s\<lparr>fetch_log := fetch_log s @ [u]\<rparr>"]
    by simp
qed

lemma url_run_steps:
  assumes "\<And>f p p'. f \<in> set fs \<Longrightarrow> f p = Inr p' \<Longrightarrow> url p' = url p"
  shows "url (snd (run_steps fs pd)) = url pd"
  using assms
proof (induction fs arbitrary: pd)
  case Nil
  show ?case by simp
next
  case (Cons f fs)
  show ?case
  proof (cases "f pd")
    case (Inl e)
    then show ?thesis by simp
  next
    case (Inr p')
    have "url p' = url pd" using Cons.prems [of f pd p'] Inr by simp
    moreover have "url (snd (run_steps fs p')) = url p'"
      using Cons.IH [of p'] Cons.prems by auto
    ultimately show ?thesis using Inr by simp
  qed
qed

lemma url_try_extract: "url (fst (snd (try_extract env cfg sp pd))) = url pd"
proof -
  let ?fs = "[set_title sp, set_meta_description sp, set_h1 sp, set_h2 sp, set_h3_plus sp]"
  obtain r pd1 where run: "run_steps ?fs pd = (r, pd1)"
    by (cases "run_steps ?fs pd") blast
  have "url (snd (run_steps ?fs pd)) = url pd"
    by (rule url_run_steps)
      (auto simp: set_title_def set_meta_description_def set_h1_def set_h2_def
        set_h3_plus_def split: sum.splits option.splits)
  then have pd1: "url pd1 = url pd" unfolding run by simp
  have body: "url pd2 = url pd1" if "set_body_text cfg sp' pd1 = Inr pd2" for sp' pd2
    using that by (auto simp: set_body_text_def split: sum.splits option.splits)
  show ?thesis
    unfolding try_extract_def run
    by (auto simp: pd1 body split: option.splits prod.splits sum.splits)
qed

lemma url_extract_text_elements: "url (fst (extract_text_elements env cfg sp u w)) = u"
proof -
  let ?pd = "\<lparr>url = u, title = [], meta_description = [], h1 = Texts [], h2 = Texts [],
    h3_plus = Texts [], body_text = [], date_crawled = now env w, errors = []\<rparr>"
  obtain r pd sp' where t: "try_extract env cfg sp ?pd = (r, pd, sp')"
    by (cases "try_extract env cfg sp ?pd") auto
  have "url pd = u" using url_try_extract [of env cfg sp ?pd] by (simp add: t)
  then show ?thesis
    by (simp add: extract_text_elements_def t split: option.splits)
qed

lemma is_valid_url_domain:
  "domain t = domain s \<Longrightarrow> is_valid_url env cfg t a = is_valid_url env cfg s a"
  by (simp add: is_valid_url_def)

lemma collect_links_filter:
  "collect_links env cfg s b hrefs links =
     links @ filter (\<lambda>a. is_valid_url env cfg s a \<and> a \<notin> visited_urls s \<and> a \<notin> set (urls_to_visit s))
       (map (absolute_url env cfg b) hrefs)"
  by (induction hrefs arbitrary: links) (simp_all add: Let_def)

lemma extract_links_filter:
  "extract_links env cfg s sp b =
     filter (\<lambda>a. is_valid_url env cfg s a \<and> a \<notin> visited_urls s \<and> a \<notin> set (urls_to_visit s))
       (map (absolute_url env cfg b) (find_all_a_href sp))"
  by (simp add: extract_links_def collect_links_filter)

lemma process_url_cases:
  fixes env :: "'w env" and cfg u s
  defines "s1 \<equiv> s\<lparr>visited_urls := insert u (visited_urls s), visit_log := visit_log s @ [u]\<rparr>"
  defines "t \<equiv> snd (get_page_content env cfg u s1)"
  shows "(u \<in> visited_urls s \<and> process_url env cfg u s = (False, s)) \<or>
    (u \<notin> visited_urls s \<and> reached_max_pages cfg s1 \<and> process_url env cfg u s = (True, s1)) \<or>
    (u \<notin> visited_urls s \<and> \<not> reached_max_pages cfg s1 \<and> process_url env cfg u s = (False, t)) \<or>
    (u \<notin> visited_urls s \<and> \<not> reached_max_pages cfg s1 \<and>
      (\<exists>p ls. url p = u \<and>
         list_all (\<lambda>a. is_valid_url env cfg s a \<and> a \<notin> insert u (visited_urls s)) ls \<and>
         process_url env cfg u s =
           (False, t\<lparr>data := data t @ [p], urls_to_visit := urls_to_visit t @ ls\<rparr>)))"
proof (cases "u \<in> visited_urls s")
  case True
  then show ?thesis by (simp add: process_url_def)
next
  case unseen: False
  show ?thesis
  proof (cases "reached_max_pages cfg s1")
    case True
    with unseen show ?thesis by (simp add: process_url_def Let_def s1_def)
  next
    case room: False
    obtain r where gp: "get_page_content env cfg u s1 = (r, t)"
      by (cases "get_page_content env cfg u s1") (simp add: t_def)
    have frame: "visited_urls t = insert u (visited_urls s)" "domain t = domain s"
      using get_page_content_frame [of env cfg u s1] by (simp_all add: t_def s1_def)
    show ?thesis
    proof (cases "r = None \<or> r = Some []")
      case True
      with unseen room gp have "process_url env cfg u s = (False, t)"
        by (auto simp: process_url_def Let_def s1_def)
      with unseen room show ?thesis by simp
    next
      case False
      then obtain html where r: "r = Some html" and html: "html \<noteq> []" by auto
      define p where "p = fst (extract_text_elements env cfg (parse_html env html) u (world t))"
      define sp' where "sp' = snd (extract_text_elements env cfg (parse_html env html) u (world t))"
      define t3 where "t3 = t\<lparr>data := data t @ [p]\<rparr>"
      define ls where "ls = (if current_depth t3 < max_depth cfg
        then extract_links env cfg t3 sp' u else [])"
      have res: "process_url env cfg u s = (False, t\<lparr>data := data t @ [p], urls_to_visit := urls_to_visit t @ ls\<rparr>)"
        using unseen room gp r html
        by (simp add: process_url_def Let_def s1_def [symmetric] p_def sp'_def t3_def ls_def
            split: prod.splits)
      have "list_all (\<lambda>a. is_valid_url env cfg s a \<and> a \<notin> insert u (visited_urls s)) ls"
        using frame
        by (auto simp: ls_def extract_links_filter list_all_iff t3_def is_valid_url_def)
      moreover have "url p = u" by (simp add: p_def url_extract_text_elements)
      ultimately show ?thesis using unseen room res by blast
    qed
  qed
qed

lemma crawl_inv_init: "crawl_inv cfg (init env cfg w)"
  by (simp add: crawl_inv_def init_def fetched_prefix_def split: option.splits)

lemma crawl_inv_cong:
  "visit_log t = visit_log s \<Longrightarrow> visited_urls t = visited_urls s \<Longrightarrow>
   fetch_log t = fetch_log s \<Longrightarrow> data t = data s \<Longrightarrow> crawl_inv cfg t = crawl_inv cfg s"
  by (simp add: crawl_inv_def)

lemma fetched_prefix_budget:
  assumes "distinct vl" "set vl = visited_urls s" "u \<notin> visited_urls s"
    and "reached_max_pages cfg (s\<lparr>visited_urls := insert u (visited_urls s), visit_log := vl'\<rparr>)"
  shows "fetched_prefix cfg (vl @ [u]) = fetched_prefix cfg vl"
proof -
  have card: "card (insert u (visited_urls s)) = Suc (length vl)"
    using assms(1-3) distinct_card [of vl] by (metis List.finite_set card_insert_disjoint)
  from assms(4) obtain n where n: "max_pages cfg = Some n" "n \<le> int (Suc (length vl))"
    by (auto simp: reached_max_pages_def card split: option.splits)
  then have "nat (n - 1) \<le> length vl" by linarith
  then show ?thesis by (simp add: fetched_prefix_def n)
qed

lemma fetched_prefix_room:
  assumes "distinct vl" "set vl = visited_urls s" "u \<notin> visited_urls s"
    and "\<not> reached_max_pages cfg (s\<lparr>visited_urls := insert u (visited_urls s), visit_log := vl'\<rparr>)"
  shows "fetched_prefix cfg (vl @ [u]) = fetched_prefix cfg vl @ [u]"
proof -
  have card: "card (insert u (visited_urls s)) = Suc (length vl)"
    using assms(1-3) distinct_card [of vl] by (metis List.finite_set card_insert_disjoint)
  show ?thesis
  proof (cases "max_pages cfg")
    case None
    then show ?thesis by (simp add: fetched_prefix_def)
  next
    case (Some n)
    with assms(4) have "int (Suc (length vl)) < n"
      by (simp add: reached_max_pages_def card)
    then have "Suc (length vl) \<le> nat (n - 1)" by linarith
    then show ?thesis by (simp add: fetched_prefix_def Some)
  qed
qed

lemma crawl_inv_process_url:
  assumes inv: "crawl_inv cfg s"
  shows "crawl_inv cfg (snd (process_url env cfg u s))"
proof -
  define s1 where "s1 = s\<lparr>visited_urls := insert u (visited_urls s), visit_log := visit_log s @ [u]\<rparr>"
  define t where "t = snd (get_page_content env cfg u s1)"
  have t: "visited_urls t = insert u (visited_urls s)" "visit_log t = visit_log s @ [u]"
    "fetch_log t = fetch_log s @ [u]" "data t = data s"
    using get_page_content_frame [of env cfg u s1] by (simp_all add: t_def s1_def)
  from inv have d: "distinct (visit_log s)" and v: "set (visit_log s) = visited_urls s"
    and f: "fetch_log s = fetched_prefix cfg (visit_log s)"
    and e: "subseq (map url (data s)) (fetch_log s)"
    unfolding crawl_inv_def by blast+
  consider (seen) "u \<in> visited_urls s" "process_url env cfg u s = (False, s)"
    | (budget) "u \<notin> visited_urls s" "reached_max_pages cfg s1" "process_url env cfg u s = (True, s1)"
    | (failed) "u \<notin> visited_urls s" "\<not> reached_max_pages cfg s1" "process_url env cfg u s = (False, t)"
    | (stored) p ls where "u \<notin> visited_urls s" "\<not> reached_max_pages cfg s1" "url p = u"
        "process_url env cfg u s = (False, t\<lparr>data := data t @ [p], urls_to_visit := urls_to_visit t @ ls\<rparr>)"
    using process_url_cases [of u s env cfg] unfolding s1_def t_def by blast
  then show ?thesis
  proof cases
    case seen
    with inv show ?thesis by simp
  next
    case budget
    have "fetched_prefix cfg (visit_log s @ [u]) = fetched_prefix cfg (visit_log s)"
      using fetched_prefix_budget [OF d v budget(1)] budget(2) by (simp add: s1_def)
    with budget d v f e show ?thesis by (simp add: crawl_inv_def s1_def)
  next
    case failed
    have "fetched_prefix cfg (visit_log s @ [u]) = fetched_prefix cfg (visit_log s) @ [u]"
      using fetched_prefix_room [OF d v failed(1)] failed(2) by (simp add: s1_def)
    with failed d v f e t show ?thesis
      by (simp add: crawl_inv_def subseq_rev_drop_many)
  next
    case stored
    have "fetched_prefix cfg (visit_log s @ [u]) = fetched_prefix cfg (visit_log s) @ [u]"
      using fetched_prefix_room [OF d v stored(1)] stored(2) by (simp add: s1_def)
    with stored d v f e t show ?thesis
      by (simp add: crawl_inv_def)
  qed
qed

lemma crawl_inv_batch: "crawl_inv cfg s \<Longrightarrow> crawl_inv cfg (crawl_batch env cfg us s)"
proof (induction us arbitrary: s)
  case Nil
  then show ?case by simp
next
  case (Cons u us)
  obtain brk s' where p: "process_url env cfg u s = (brk, s')"
    by (cases "process_url env cfg u s") blast
  have "crawl_inv cfg s'" using crawl_inv_process_url [OF Cons.prems, of env u] p by simp
  then show ?case using Cons.IH [of s'] p by simp
qed

lemma crawl_depth_fields:
  "visit_log (crawl_depth env cfg s) = visit_log (crawl_batch env cfg (urls_to_visit s) (s\<lparr>urls_to_visit := []\<rparr>))"
  "visited_urls (crawl_depth env cfg s) = visited_urls (crawl_batch env cfg (urls_to_visit s) (s\<lparr>urls_to_visit := []\<rparr>))"
  "fetch_log (crawl_depth env cfg s) = fetch_log (crawl_batch env cfg (urls_to_visit s) (s\<lparr>urls_to_visit := []\<rparr>))"
  "data (crawl_depth env cfg s) = data (crawl_batch env cfg (urls_to_visit s) (s\<lparr>urls_to_visit := []\<rparr>))"
  "domain (crawl_depth env cfg s) = domain (crawl_batch env cfg (urls_to_visit s) (s\<lparr>urls_to_visit := []\<rparr>))"
  by (simp_all add: crawl_depth_def Let_def split: prod.splits)

lemma crawl_inv_depth: "crawl_inv cfg s \<Longrightarrow> crawl_inv cfg (crawl_depth env cfg s)"
proof -
  assume "crawl_inv cfg s"
  then have "crawl_inv cfg (s\<lparr>urls_to_visit := []\<rparr>)"
    using crawl_inv_cong [of "s\<lparr>urls_to_visit := []\<rparr>" s cfg] by simp
  then have "crawl_inv cfg (crawl_batch env cfg (urls_to_visit s) (s\<lparr>urls_to_visit := []\<rparr>))"
    by (rule crawl_inv_batch)
  then show ?thesis
    using crawl_inv_cong [of "crawl_depth env cfg s"
        "crawl_batch env cfg (urls_to_visit s) (s\<lparr>urls_to_visit := []\<rparr>)" cfg]
    by (simp add: crawl_depth_fields)
qed

lemma crawl_loop_step:
  "urls_to_visit s \<noteq> [] \<Longrightarrow> current_depth s \<le> max_depth cfg \<Longrightarrow>
   crawl_loop env cfg s = crawl_loop env cfg (crawl_depth env cfg s)"
  by (subst crawl_loop.simps) simp

lemma crawl_loop_stop:
  "urls_to_visit s = [] \<or> \<not> current_depth s \<le> max_depth cfg \<Longrightarrow> crawl_loop env cfg s = s"
  by (subst crawl_loop.simps) auto

lemma crawl_inv_loop: "crawl_inv cfg s \<Longrightarrow> crawl_inv cfg (crawl_loop env cfg s)"
proof (induction env cfg s rule: crawl_loop.induct)
  case (1 env cfg s)
  show ?case
  proof (cases "urls_to_visit s \<noteq> [] \<and> current_depth s \<le> max_depth cfg")
    case True
    then have "crawl_loop env cfg s = crawl_loop env cfg (crawl_depth env cfg s)"
      by (simp add: crawl_loop_step)
    then show ?thesis
      using "1.IH" [OF True] crawl_inv_depth [OF "1.prems", of env] by simp
  next
    case False
    then have "crawl_loop env cfg s = s" by (simp add: crawl_loop_stop)
    then show ?thesis using "1.prems" by simp
  qed
qed

lemma crawl_fields:
  "visit_log (crawl env cfg s) = visit_log (crawl_loop env cfg s)"
  "visited_urls (crawl env cfg s) = visited_urls (crawl_loop env cfg s)"
  "fetch_log (crawl env cfg s) = fetch_log (crawl_loop env cfg s)"
  "data (crawl env cfg s) = data (crawl_loop env cfg s)"
  "domain (crawl env cfg s) = domain (crawl_loop env cfg s)"
  by (simp_all add: crawl_def Let_def)

lemma crawl_inv_crawl: "crawl_inv cfg s \<Longrightarrow> crawl_inv cfg (crawl env cfg s)"
  using crawl_inv_loop [of cfg s env] crawl_inv_cong [of "crawl env cfg s" "crawl_loop env cfg s" cfg]
  by (simp add: crawl_fields)


lemma process_url_fields:
  "visited_urls (snd (process_url env cfg u s)) = insert u (visited_urls s)"
  "fetch_log (snd (process_url env cfg u s)) =
     (if u \<in> visited_urls s \<or>
         reached_max_pages cfg (s\<lparr>visited_urls := insert u (visited_urls s)\<rparr>)
      then fetch_log s else fetch_log s @ [u])"
  "domain (snd (process_url env cfg u s)) = domain s"
proof -
  define s1 where "s1 = s\<lparr>visited_urls := insert u (visited_urls s), visit_log := visit_log s @ [u]\<rparr>"
  define t where "t = snd (get_page_content env cfg u s1)"
  have t: "visited_urls t = insert u (visited_urls s)" "fetch_log t = fetch_log s @ [u]"
    "domain t = domain s"
    using get_page_content_frame [of env cfg u s1] by (simp_all add: t_def s1_def)
  have r: "reached_max_pages cfg (s\<lparr>visited_urls := insert u (visited_urls s)\<rparr>) =
    reached_max_pages cfg s1"
    by (simp add: reached_max_pages_def s1_def split: option.splits)
  consider (seen) "u \<in> visited_urls s" "process_url env cfg u s = (False, s)"
    | (budget) "u \<notin> visited_urls s" "reached_max_pages cfg s1" "process_url env cfg u s = (True, s1)"
    | (failed) "u \<notin> visited_urls s" "\<not> reached_max_pages cfg s1" "process_url env cfg u s = (False, t)"
    | (stored) p ls where "u \<notin> visited_urls s" "\<not> reached_max_pages cfg s1" "url p = u"
        "process_url env cfg u s = (False, t\<lparr>data := data t @ [p], urls_to_visit := urls_to_visit t @ ls\<rparr>)"
    using process_url_cases [of u s env cfg] unfolding s1_def t_def by blast
  then have "visited_urls (snd (process_url env cfg u s)) = insert u (visited_urls s) \<and>
    fetch_log (snd (process_url env cfg u s)) =
     (if u \<in> visited_urls s \<or> reached_max_pages cfg s1
      then fetch_log s else fetch_log s @ [u]) \<and>
    domain (snd (process_url env cfg u s)) = domain s"
  proof cases
    case seen
    then show ?thesis by (simp add: insert_absorb)
  next
    case budget
    then show ?thesis by (simp add: s1_def)
  next
    case failed
    then show ?thesis by (simp add: t)
  next
    case stored
    then show ?thesis by (simp add: t)
  qed
  then show "visited_urls (snd (process_url env cfg u s)) = insert u (visited_urls s)"
    and "fetch_log (snd (process_url env cfg u s)) =
     (if u \<in> visited_urls s \<or>
         reached_max_pages cfg (s\<lparr>visited_urls := insert u (visited_urls s)\<rparr>)
      then fetch_log s else fetch_log s @ [u])"
    and "domain (snd (process_url env cfg u s)) = domain s"
    unfolding r by blast+
qed




lemma subseq_set_subset: "subseq xs ys \<Longrightarrow> set xs \<subseteq> set ys"
  by (induction rule: list_emb.induct) auto

lemma nth_not_in_take: "distinct vl \<Longrightarrow> k < length vl \<Longrightarrow> vl ! k \<notin> set (take k vl)"
  by (auto simp: in_set_conv_nth nth_eq_iff_index_eq)


subsection \<open>The claims on the crawl\<close>

text \<open>
  C1. The claim: the size of the visited set never exceeds the configured maximum of
  pages. The \<^verbatim>\<open>break\<close> that follows the check of the page bound leaves the \<^verbatim>\<open>for\<close> loop only,
  and the \<^verbatim>\<open>while\<close> loop does not test the bound: the links queued earlier in the same batch
  start another pass, which marks one more URL as visited before it stops. On the example
  site with a bound of three pages the crawl ends with four visited URLs.
\<close>

theorem visited_set_exceeds_max_pages:
  "max_pages (example_config ''http://x.org/'' 3 (Some 3)) = Some 3 \<and>
   card (visited_urls (crawl (site_env example_site) (example_config ''http://x.org/'' 3 (Some 3))
     (init (site_env example_site) (example_config ''http://x.org/'' 3 (Some 3)) []))) = 4"
  by code_simp



text \<open>
  C3. The claim: \<^verbatim>\<open>extract_links\<close> returns each URL at most once. The loop tests a URL against
  the visited set and against the pending queue, but not against the list it is building,
  and the queue is extended only after the loop: two anchors of one page with the same
  target give the target twice.
\<close>

theorem extract_links_returns_duplicates:
  "extract_links (site_env example_site) (example_config ''http://x.org/'' 3 None)
     (init (site_env example_site) (example_config ''http://x.org/'' 3 None) []) (page [''http://x.org/a'', ''http://x.org/a'']) ''http://x.org/''
   = [''http://x.org/a'', ''http://x.org/a'']"
  by code_simp

text \<open>
  C4, as stated: for every finite page bound \<open>N\<close> fewer than \<open>N\<close> URLs are fetched. With the
  bound 0 nothing is fetched, and 0 is not less than 0.
\<close>

theorem fetched_not_below_zero_bound:
  "max_pages (example_config ''http://x.org/'' 3 (Some 0)) = Some 0 \<and>
   \<not> int (length (fetch_log (crawl (site_env example_site) (example_config ''http://x.org/'' 3 (Some 0))
     (init (site_env example_site) (example_config ''http://x.org/'' 3 (Some 0)) [])))) < 0"
  by code_simp

text \<open>
  C4, amended. For a page bound \<open>N\<close>, the fetched URLs are exactly the first \<open>N - 1\<close> URLs
  that were marked as visited (none when \<open>N \<le> 1\<close>), and every record belongs to a fetched
  URL. When \<open>N \<ge> 1\<close>, fewer than \<open>N\<close> URLs are fetched and fewer than \<open>N\<close> records are made, and
  the URL whose addition brings the visited set to size \<open>N\<close>, when there is one, is in the
  visited set but is not fetched and has no record.
\<close>

theorem budget_url_marked_but_never_fetched:
  assumes "max_pages cfg = Some N"
  shows "distinct (visit_log (crawl env cfg (init env cfg w))) \<and>
    set (visit_log (crawl env cfg (init env cfg w))) =
      visited_urls (crawl env cfg (init env cfg w)) \<and>
    fetch_log (crawl env cfg (init env cfg w)) =
      take (nat (N - 1)) (visit_log (crawl env cfg (init env cfg w))) \<and>
    set (map url (data (crawl env cfg (init env cfg w)))) \<subseteq>
      set (fetch_log (crawl env cfg (init env cfg w))) \<and>
    (1 \<le> N \<longrightarrow>
       int (length (fetch_log (crawl env cfg (init env cfg w)))) < N \<and>
       int (length (data (crawl env cfg (init env cfg w)))) < N) \<and>
    (1 \<le> N \<and> nat N \<le> length (visit_log (crawl env cfg (init env cfg w))) \<longrightarrow>
       visit_log (crawl env cfg (init env cfg w)) ! (nat N - 1) \<in>
         visited_urls (crawl env cfg (init env cfg w)) \<and>
       visit_log (crawl env cfg (init env cfg w)) ! (nat N - 1) \<notin>
         set (fetch_log (crawl env cfg (init env cfg w))) \<and>
       visit_log (crawl env cfg (init env cfg w)) ! (nat N - 1) \<notin>
         set (map url (data (crawl env cfg (init env cfg w)))))"
proof -
  let ?s = "crawl env cfg (init env cfg w)"
  have inv: "crawl_inv cfg ?s" by (rule crawl_inv_crawl) (rule crawl_inv_init)
  then have d: "distinct (visit_log ?s)" and v: "set (visit_log ?s) = visited_urls ?s"
    and f0: "fetch_log ?s = fetched_prefix cfg (visit_log ?s)"
    and e: "subseq (map url (data ?s)) (fetch_log ?s)"
    unfolding crawl_inv_def by blast+
  have f: "fetch_log ?s = take (nat (N - 1)) (visit_log ?s)"
    using f0 assms by (simp add: fetched_prefix_def)
  have sub: "set (map url (data ?s)) \<subseteq> set (fetch_log ?s)"
    using e by (rule subseq_set_subset)
  have len: "length (data ?s) \<le> length (fetch_log ?s)"
    using list_emb_length [OF e] by simp
  have few: "int (length (fetch_log ?s)) < N" if "1 \<le> N"
    using that unfolding f by simp
  have nth: "visit_log ?s ! (nat N - 1) \<in> visited_urls ?s \<and>
      visit_log ?s ! (nat N - 1) \<notin> set (fetch_log ?s) \<and>
      visit_log ?s ! (nat N - 1) \<notin> set (map url (data ?s))"
    if "1 \<le> N" "nat N \<le> length (visit_log ?s)"
  proof -
    have k: "nat N - 1 < length (visit_log ?s)" using that by linarith
    have eq: "nat (N - 1) = nat N - 1" using that by linarith
    have "visit_log ?s ! (nat N - 1) \<in> visited_urls ?s"
      using k v nth_mem by blast
    moreover have "visit_log ?s ! (nat N - 1) \<notin> set (fetch_log ?s)"
      unfolding f eq using nth_not_in_take [OF d k] .
    ultimately show ?thesis using sub by blast
  qed
  have c5: "1 \<le> N \<longrightarrow>
       int (length (fetch_log ?s)) < N \<and> int (length (data ?s)) < N"
  proof (intro impI conjI)
    assume "1 \<le> N"
    then show "int (length (fetch_log ?s)) < N" by (rule few)
    with len show "int (length (data ?s)) < N" by linarith
  qed
  have c6: "1 \<le> N \<and> nat N \<le> length (visit_log ?s) \<longrightarrow>
       visit_log ?s ! (nat N - 1) \<in> visited_urls ?s \<and>
       visit_log ?s ! (nat N - 1) \<notin> set (fetch_log ?s) \<and>
       visit_log ?s ! (nat N - 1) \<notin> set (map url (data ?s))"
    using nth by blast
  show ?thesis by (intro conjI) (rule d v f sub c5 c6)+
qed

theorem budget_url_marked_but_never_fetched_witness:
  "max_pages (example_config ''http://x.org/'' 3 (Some 1)) = Some 1 \<and>
   visit_log (crawl (site_env example_site) (example_config ''http://x.org/'' 3 (Some 1))
     (init (site_env example_site) (example_config ''http://x.org/'' 3 (Some 1)) [])) = [''http://x.org/''] \<and>
   fetch_log (crawl (site_env example_site) (example_config ''http://x.org/'' 3 (Some 1))
     (init (site_env example_site) (example_config ''http://x.org/'' 3 (Some 1)) [])) = [] \<and>
   data (crawl (site_env example_site) (example_config ''http://x.org/'' 3 (Some 1))
     (init (site_env example_site) (example_config ''http://x.org/'' 3 (Some 1)) [])) = [] \<and>
   ''http://x.org/'' \<in> visited_urls (crawl (site_env example_site) (example_config ''http://x.org/'' 3 (Some 1))
     (init (site_env example_site) (example_config ''http://x.org/'' 3 (Some 1)) []))"
proof -
  let ?c = "example_config ''http://x.org/'' 3 (Some 1)"
  let ?s = "crawl (site_env example_site) ?c (init (site_env example_site) ?c [])"
  have m: "max_pages ?c = Some 1" by code_simp
  have vl: "visit_log ?s = [''http://x.org/'']" by code_simp
  note t = budget_url_marked_but_never_fetched [OF m, of "site_env example_site" "[]"]
  from t have "fetch_log ?s = take (nat (1 - 1)) (visit_log ?s)" by blast
  then have f: "fetch_log ?s = []" by simp
  from t have "(1::int) \<le> 1 \<longrightarrow> int (length (fetch_log ?s)) < 1 \<and> int (length (data ?s)) < 1"
    by blast
  then have d: "data ?s = []" by simp
  from t have "(1::int) \<le> 1 \<and> nat 1 \<le> length (visit_log ?s) \<longrightarrow>
      visit_log ?s ! (nat 1 - 1) \<in> visited_urls ?s \<and>
      visit_log ?s ! (nat 1 - 1) \<notin> set (fetch_log ?s) \<and>
      visit_log ?s ! (nat 1 - 1) \<notin> set (map url (data ?s))"
    by blast
  then have v: "''http://x.org/'' \<in> visited_urls ?s" unfolding vl by simp
  show ?thesis using m vl f d v by blast
qed

text \<open>
  C5. The claim: \<^verbatim>\<open>get_page_content\<close> waits for the configured delay after every attempt,
  failed ones included. The call of \<^verbatim>\<open>time.sleep\<close> is the last statement but one of the \<^verbatim>\<open>try\<close>
  block, after the request: an exception raised by the request skips it. A request for a
  page that does not exist returns \<^verbatim>\<open>None\<close> without any delay, while a request that
  succeeds is followed by the delay.
\<close>

theorem failed_fetch_skips_delay:
  "fst (get_page_content (site_env example_site) (example_config ''http://x.org/'' 3 None) ''http://x.org/missing''
     (init (site_env example_site) (example_config ''http://x.org/'' 3 None) [])) = None \<and>
   sleep_log (snd (get_page_content (site_env example_site) (example_config ''http://x.org/'' 3 None)
     ''http://x.org/missing'' (init (site_env example_site) (example_config ''http://x.org/'' 3 None) []))) = [] \<and>
   request_delay (example_config ''http://x.org/'' 3 None) = 1 \<and>
   sleep_log (snd (get_page_content (site_env example_site) (example_config ''http://x.org/'' 3 None)
     ''http://x.org/a'' (init (site_env example_site) (example_config ''http://x.org/'' 3 None) []))) = [1]"
  by code_simp

subsection \<open>Admitted URLs\<close>

lemma admitted_domain: "domain t = domain s \<Longrightarrow> admitted env cfg t = admitted env cfg s"
  by (simp add: admitted_def is_valid_url_def fun_eq_iff)

lemma queue_inv_cong:
  "domain t = domain s \<Longrightarrow> urls_to_visit t = urls_to_visit s \<Longrightarrow> data t = data s \<Longrightarrow>
   queue_inv env cfg t = queue_inv env cfg s"
  using admitted_domain [of t s env cfg] by (simp add: queue_inv_def)

lemma queue_inv_init: "queue_inv env cfg (init env cfg w)"
  by (simp add: queue_inv_def init_def admitted_def)

lemma queue_inv_process_url:
  assumes inv: "queue_inv env cfg s" and u: "admitted env cfg s u"
  shows "queue_inv env cfg (snd (process_url env cfg u s))"
proof -
  define s1 where "s1 = s\<lparr>visited_urls := insert u (visited_urls s), visit_log := visit_log s @ [u]\<rparr>"
  define t where "t = snd (get_page_content env cfg u s1)"
  have t: "domain t = domain s" "urls_to_visit t = urls_to_visit s" "data t = data s"
    using get_page_content_frame [of env cfg u s1] by (simp_all add: t_def s1_def)
  have tq: "queue_inv env cfg t" using inv queue_inv_cong [OF t, of env cfg] by simp
  consider (seen) "process_url env cfg u s = (False, s)"
    | (budget) "process_url env cfg u s = (True, s1)"
    | (failed) "process_url env cfg u s = (False, t)"
    | (stored) p ls where "url p = u"
        "list_all (\<lambda>a. is_valid_url env cfg s a \<and> a \<notin> insert u (visited_urls s)) ls"
        "process_url env cfg u s = (False, t\<lparr>data := data t @ [p], urls_to_visit := urls_to_visit t @ ls\<rparr>)"
    using process_url_cases [of u s env cfg] unfolding s1_def t_def by blast
  then show ?thesis
  proof cases
    case seen
    with inv show ?thesis by simp
  next
    case budget
    have "queue_inv env cfg s1 = queue_inv env cfg s"
      by (rule queue_inv_cong) (simp_all add: s1_def)
    with budget inv show ?thesis by simp
  next
    case failed
    with tq show ?thesis by simp
  next
    case stored
    let ?t' = "t\<lparr>data := data t @ [p], urls_to_visit := urls_to_visit t @ ls\<rparr>"
    have a: "admitted env cfg ?t' = admitted env cfg s"
      by (rule admitted_domain) (simp add: t)
    have "list_all (admitted env cfg s) ls"
      using stored(2) by (simp add: list_all_iff admitted_def)
    then have "queue_inv env cfg ?t'"
      using inv u stored(1) unfolding queue_inv_def a by (simp add: t)
    with stored(3) show ?thesis by simp
  qed
qed

lemma queue_inv_batch:
  "queue_inv env cfg s \<Longrightarrow> list_all (admitted env cfg s) us \<Longrightarrow>
   queue_inv env cfg (crawl_batch env cfg us s)"
proof (induction us arbitrary: s)
  case Nil
  then show ?case by simp
next
  case (Cons u us)
  obtain brk s' where p: "process_url env cfg u s = (brk, s')"
    by (cases "process_url env cfg u s") blast
  have q: "queue_inv env cfg s'"
    using queue_inv_process_url [of env cfg s u] Cons.prems p by simp
  have "domain s' = domain s" using process_url_fields(3) [of env cfg u s] p by simp
  then have "admitted env cfg s' = admitted env cfg s" by (rule admitted_domain)
  then have "list_all (admitted env cfg s') us" using Cons.prems(2) by simp
  then show ?case using Cons.IH [OF q] p q by simp
qed

lemma domain_batch: "domain (crawl_batch env cfg us s) = domain s"
proof (induction us arbitrary: s)
  case Nil
  show ?case by simp
next
  case (Cons u us)
  obtain brk s' where p: "process_url env cfg u s = (brk, s')"
    by (cases "process_url env cfg u s") blast
  have "domain s' = domain s" using process_url_fields(3) [of env cfg u s] p by simp
  then show ?case using Cons.IH [of s'] p by simp
qed

lemma set_slice_to: "set (slice_to n xs) \<subseteq> set xs"
  by (simp add: slice_to_def set_take_subset)

lemma queue_inv_depth:
  assumes sh: "\<And>us w. set (fst (shuffle env us w)) \<subseteq> set us"
    and inv: "queue_inv env cfg s"
  shows "queue_inv env cfg (crawl_depth env cfg s)"
proof -
  let ?b = "crawl_batch env cfg (urls_to_visit s) (s\<lparr>urls_to_visit := []\<rparr>)"
  have a0: "admitted env cfg (s\<lparr>urls_to_visit := []\<rparr>) = admitted env cfg s"
    by (rule admitted_domain) simp
  have "queue_inv env cfg (s\<lparr>urls_to_visit := []\<rparr>)"
    using inv unfolding queue_inv_def a0 by simp
  moreover have "list_all (admitted env cfg (s\<lparr>urls_to_visit := []\<rparr>)) (urls_to_visit s)"
    using inv unfolding queue_inv_def a0 by simp
  ultimately have b: "queue_inv env cfg ?b" by (rule queue_inv_batch)
  have ad: "admitted env cfg (crawl_depth env cfg s) = admitted env cfg ?b"
    by (rule admitted_domain) (simp add: crawl_depth_fields)
  define q where "q = (if \<not> breadth_first cfg
    then fst (shuffle env (urls_to_visit ?b) (world ?b)) else urls_to_visit ?b)"
  have q: "set q \<subseteq> set (urls_to_visit ?b)"
    using sh [of "urls_to_visit ?b" "world ?b"] by (simp add: q_def)
  have "urls_to_visit (crawl_depth env cfg s) =
      (if max_queue_size cfg < int (length q) then slice_to (max_queue_size cfg) q else q)"
    by (simp add: crawl_depth_def Let_def q_def split: prod.splits)
  then have "set (urls_to_visit (crawl_depth env cfg s)) \<subseteq> set q"
    using set_slice_to [of "max_queue_size cfg" q] by (simp split: if_splits)
  with q have "set (urls_to_visit (crawl_depth env cfg s)) \<subseteq> set (urls_to_visit ?b)"
    by (rule subset_trans [rotated])
  then have "list_all (admitted env cfg ?b) (urls_to_visit (crawl_depth env cfg s))"
    using b unfolding queue_inv_def list_all_iff by blast
  then show ?thesis
    using b unfolding queue_inv_def ad by (simp add: crawl_depth_fields)
qed

lemma queue_inv_loop:
  assumes sh: "\<And>us w. set (fst (shuffle env us w)) \<subseteq> set us"
  shows "queue_inv env cfg s \<Longrightarrow> queue_inv env cfg (crawl_loop env cfg s)"
  using sh
proof (induction env cfg s rule: crawl_loop.induct)
  case (1 env cfg s)
  note keep = "1.prems"(2)
  show ?case
  proof (cases "urls_to_visit s \<noteq> [] \<and> current_depth s \<le> max_depth cfg")
    case True
    have q: "queue_inv env cfg (crawl_depth env cfg s)"
      using keep "1.prems"(1) by (rule queue_inv_depth)
    have "queue_inv env cfg (crawl_loop env cfg (crawl_depth env cfg s))"
      using True q keep by (rule "1.IH")
    moreover have "crawl_loop env cfg s = crawl_loop env cfg (crawl_depth env cfg s)"
      using True by (simp add: crawl_loop_step)
    ultimately show ?thesis by simp
  next
    case False
    then have "crawl_loop env cfg s = s" by (simp add: crawl_loop_stop)
    then show ?thesis using "1.prems"(1) by simp
  qed
qed

lemma domain_loop: "domain (crawl_loop env cfg s) = domain s"
proof (induction env cfg s rule: crawl_loop.induct)
  case (1 env cfg s)
  show ?case
  proof (cases "urls_to_visit s \<noteq> [] \<and> current_depth s \<le> max_depth cfg")
    case True
    then have "crawl_loop env cfg s = crawl_loop env cfg (crawl_depth env cfg s)"
      by (simp add: crawl_loop_step)
    then show ?thesis using "1.IH" [OF True] by (simp add: crawl_depth_fields domain_batch)
  next
    case False
    then have "crawl_loop env cfg s = s" by (simp add: crawl_loop_stop)
    then show ?thesis by simp
  qed
qed

text \<open>
  C6, as stated: no record has a URL that ends, case ignored, with an ignored extension,
  the record of the seed included. The seed is queued by the constructor without passing
  \<^verbatim>\<open>is_valid_url\<close>, which only \<^verbatim>\<open>extract_links\<close> calls: a seed that is a PDF document is
  fetched and gets its record.
\<close>

theorem seed_record_has_ignored_extension:
  "map url (data (crawl (site_env pdf_site) (example_config ''http://x.org/report.pdf'' 3 None)
     (init (site_env pdf_site) (example_config ''http://x.org/report.pdf'' 3 None) []))) =
     [''http://x.org/report.pdf''] \<and>
   ''.pdf'' \<in> set (ignore_extensions (example_config ''http://x.org/report.pdf'' 3 None)) \<and>
   ends_with_ignoring_case ''http://x.org/report.pdf'' ''.pdf''"
  by code_simp

text \<open>
  C6, amended. When the shuffle of the random library returns only URLs of the list it
  was given, every record whose URL is not the seed has a URL that passed \<^verbatim>\<open>is_valid_url\<close>:
  its lower-cased form ends with none of the configured extensions as they are written,
  so the URL does not end, case ignored, with any configured extension that is in lower
  case itself. (The code lowers the URL only; an extension that \<^verbatim>\<open>lower\<close> changes is left out
  of the statement.)
\<close>

theorem records_have_no_ignored_extension:
  assumes "\<And>us w. set (fst (shuffle env us w)) \<subseteq> set us"
    and "r \<in> set (data (crawl env cfg (init env cfg w)))"
    and "url r \<noteq> start_url cfg"
    and "ext \<in> set (ignore_extensions cfg)"
  shows "is_valid_url env cfg (init env cfg w) (url r) \<and>
    \<not> endswith (lower (url r)) ext \<and>
    (lower ext = ext \<longrightarrow> \<not> ends_with_ignoring_case (url r) ext)"
proof -
  let ?s = "crawl_loop env cfg (init env cfg w)"
  have "queue_inv env cfg ?s"
    using assms(1) queue_inv_init by (rule queue_inv_loop)
  moreover have "admitted env cfg ?s = admitted env cfg (init env cfg w)"
    by (rule admitted_domain) (rule domain_loop)
  ultimately have "list_all (\<lambda>r. admitted env cfg (init env cfg w) (url r)) (data ?s)"
    by (simp add: queue_inv_def)
  with assms(2) have "admitted env cfg (init env cfg w) (url r)"
    by (simp add: list_all_iff crawl_fields)
  with assms(3) have v: "is_valid_url env cfg (init env cfg w) (url r)"
    by (simp add: admitted_def)
  then have "\<not> list_ex (\<lambda>ext. endswith (lower (url r)) ext) (ignore_extensions cfg)"
    by (simp add: is_valid_url_def split: if_splits)
  with assms(4) have e: "\<not> endswith (lower (url r)) ext"
    by (auto simp: list_ex_iff)
  then have "lower ext = ext \<longrightarrow> \<not> ends_with_ignoring_case (url r) ext"
    by (simp add: ends_with_ignoring_case_def endswith_def)
  with v e show ?thesis by blast
qed

theorem records_have_no_ignored_extension_witness:
  "map url (data (crawl (site_env example_site) (example_config ''http://x.org/'' 3 None)
     (init (site_env example_site) (example_config ''http://x.org/'' 3 None) []))) =
     [''http://x.org/'', ''http://x.org/a'', ''http://x.org/b'', ''http://x.org/c''] \<and>
   ''http://x.org/a'' \<noteq> start_url (example_config ''http://x.org/'' 3 None) \<and>
   ''.pdf'' \<in> set (ignore_extensions (example_config ''http://x.org/'' 3 None)) \<and>
   lower ''.pdf'' = ''.pdf'' \<and>
   \<not> ends_with_ignoring_case ''http://x.org/a'' ''.pdf''"
proof -
  let ?e = "site_env example_site"
  let ?c = "example_config ''http://x.org/'' 3 None"
  let ?s = "crawl ?e ?c (init ?e ?c [])"
  have sh: "\<And>us w. set (fst (shuffle ?e us w)) \<subseteq> set us"
    by (simp add: site_env_def)
  have urls: "map url (data ?s) = [''http://x.org/'', ''http://x.org/a'', ''http://x.org/b'', ''http://x.org/c'']" by code_simp
  from urls have "length (map url (data ?s)) = 4" by simp
  then have len: "1 < length (data ?s)" by simp
  then have mem: "data ?s ! 1 \<in> set (data ?s)" by (rule nth_mem)
  have "map url (data ?s) ! 1 = url (data ?s ! 1)" using len by (rule nth_map)
  with urls have u: "url (data ?s ! 1) = ''http://x.org/a''" by simp
  have st: "start_url ?c = ''http://x.org/''" by (simp add: example_config_def)
  have ne: "url (data ?s ! 1) \<noteq> start_url ?c" unfolding u st by simp
  have ext: "''.pdf'' \<in> set (ignore_extensions ?c)" by (simp add: example_config_def)
  have low: "lower ''.pdf'' = ''.pdf''" by code_simp
  from records_have_no_ignored_extension [OF sh mem ne ext]
  have "lower ''.pdf'' = ''.pdf'' \<longrightarrow> \<not> ends_with_ignoring_case (url (data ?s ! 1)) ''.pdf''"
    by blast
  with low have res: "\<not> ends_with_ignoring_case ''http://x.org/a'' ''.pdf''" unfolding u by blast
  have ne': "''http://x.org/a'' \<noteq> start_url ?c" using ne unfolding u .
  show ?thesis using urls ne' ext low res by blast
qed

subsection \<open>A crawl of depth zero\<close>







subsection \<open>The claims on the export\<close>

text \<open>
  C8, as stated: an I/O failure is surfaced to the caller as a boolean failure value. The
  method has no \<^verbatim>\<open>return\<close> statement with a value: when the file cannot be opened the caller
  gets \<^verbatim>\<open>None\<close>, which is not \<^verbatim>\<open>False\<close> and is what a successful export returns as well.
\<close>

theorem export_failure_is_not_a_boolean:
  "fst (fs_open (readonly_env example_site) ''out.csv'' (world (crawled_one [''A'', ''B'']))) =
     Inl ''Permission denied'' \<and>
   outcome (export_to_csv (readonly_env example_site) ''out.csv'' (crawled_one [''A'', ''B''])) \<noteq>
     Returns (PyBool False) \<and>
   outcome (export_to_csv (readonly_env example_site) ''out.csv'' (crawled_one [''A'', ''B''])) =
   outcome (export_to_csv (site_env example_site) ''out.csv'' (crawled_one [''A'', ''B'']))"
  by code_simp

text \<open>
  C8, amended. \<^verbatim>\<open>export_to_csv\<close> returns \<^verbatim>\<open>None\<close> on every path and never raises. With no
  record it logs a warning and leaves the instance and the outside world as they were.
  When opening the file or writing the rows fails, the exception is caught and logged as
  an error; the caller cannot tell the failure from a success by the returned value.
\<close>

theorem export_returns_none:
  "outcome (export_to_csv env filename s) = Returns PyNone \<and>
   (data s = [] \<longrightarrow>
      after (export_to_csv env filename s) = s \<and>
      logged (export_to_csv env filename s) = [(WARNING, ''No data to export'')]) \<and>
   (data s \<noteq> [] \<and> fst (fs_open env filename (world s)) = Inl e \<longrightarrow>
      logged (export_to_csv env filename s) = [(ERROR, ''Error exporting data to CSV: '' @ e)]) \<and>
   (data s \<noteq> [] \<and> fs_open env filename (world s) = (Inr (), w1) \<and>
    fst (csv_write env filename fieldnames (map flatten_item (data s)) w1) = Inl e \<longrightarrow>
      logged (export_to_csv env filename s) = [(ERROR, ''Error exporting data to CSV: '' @ e)])"
  by (auto simp: export_to_csv_def Let_def split: prod.splits sum.splits)

theorem export_returns_none_witness:
  "data (init (site_env example_site) (example_config ''http://x.org/'' 3 None) []) = [] \<and>
   after (export_to_csv (site_env example_site) ''out.csv''
     (init (site_env example_site) (example_config ''http://x.org/'' 3 None) [])) =
     init (site_env example_site) (example_config ''http://x.org/'' 3 None) [] \<and>
   data (crawled_one [''A'', ''B'']) \<noteq> [] \<and>
   fst (fs_open (readonly_env example_site) ''out.csv'' (world (crawled_one [''A'', ''B'']))) =
     Inl ''Permission denied'' \<and>
   outcome (export_to_csv (readonly_env example_site) ''out.csv'' (crawled_one [''A'', ''B''])) =
     Returns PyNone \<and>
   logged (export_to_csv (readonly_env example_site) ''out.csv'' (crawled_one [''A'', ''B''])) =
     [(ERROR, ''Error exporting data to CSV: Permission denied'')] \<and>
   logged (export_to_csv (full_disk_env example_site) ''out.csv'' (crawled_one [''A'', ''B''])) =
     [(ERROR, ''Error exporting data to CSV: No space left on device'')]"
proof -
  let ?i = "init (site_env example_site) (example_config ''http://x.org/'' 3 None) []"
  let ?s = "crawled_one [''A'', ''B'']"
  have e: "data ?i = []" by (simp add: init_def)
  have n: "data ?s \<noteq> []" by (simp add: crawled_one_def)
  have o: "fst (fs_open (readonly_env example_site) ''out.csv'' (world ?s)) = Inl ''Permission denied''"
    by (simp add: readonly_env_def)
  have o2: "fs_open (full_disk_env example_site) ''out.csv'' (world ?s) = (Inr (), [])"
    by (simp add: full_disk_env_def site_env_def crawled_one_def init_def)
  have w: "fst (csv_write (full_disk_env example_site) ''out.csv'' fieldnames
      (map flatten_item (data ?s)) []) = Inl ''No space left on device''"
    by (simp add: full_disk_env_def)
  from export_returns_none [of "site_env example_site" "''out.csv''" ?i] e
  have 1: "after (export_to_csv (site_env example_site) ''out.csv'' ?i) = ?i" by blast
  from export_returns_none [of "readonly_env example_site" "''out.csv''" ?s "''Permission denied''"] n o
  have 2: "outcome (export_to_csv (readonly_env example_site) ''out.csv'' ?s) = Returns PyNone"
    and 3: "logged (export_to_csv (readonly_env example_site) ''out.csv'' ?s) =
     [(ERROR, ''Error exporting data to CSV: Permission denied'')]" by simp_all
  from export_returns_none [of "full_disk_env example_site" "''out.csv''" ?s
      "''No space left on device''" "[]"] n o2 w
  have 4: "logged (export_to_csv (full_disk_env example_site) ''out.csv'' ?s) =
     [(ERROR, ''Error exporting data to CSV: No space left on device'')]" by simp
  show ?thesis using e 1 n o 2 3 4 by blast
qed

subsection \<open>Joining and splitting the headings\<close>

lemma split_from_no_separator:
  "sep \<noteq> [] \<Longrightarrow> \<not> contains sep t \<Longrightarrow> split_from sep cur t = [rev cur @ t]"
  by (induction t arbitrary: cur) auto

lemma separator_not_prefix:
  assumes "\<not> contains separator (c # cs)" "\<not> suffix '' |'' (c # cs)"
  shows "\<not> prefix separator (c # cs @ separator @ rest)"
proof (cases cs)
  case Nil
  then show ?thesis by (simp add: separator_def)
next
  case (Cons d ds)
  show ?thesis
  proof (cases ds)
    case Nil
    with Cons assms(2) show ?thesis by (auto simp: separator_def)
  next
    case (Cons e es)
    with \<open>cs = d # ds\<close> assms(1) show ?thesis by (auto simp: separator_def)
  qed
qed

lemma split_from_at_separator:
  "\<not> contains separator t \<Longrightarrow> \<not> suffix '' |'' t \<Longrightarrow>
   split_from separator cur (t @ separator @ rest) = (rev cur @ t) # split_from separator [] rest"
proof (induction t arbitrary: cur)
  case Nil
  show ?case by (simp add: separator_def)
next
  case (Cons c cs)
  have np: "\<not> prefix separator (c # cs @ separator @ rest)"
    using Cons.prems by (rule separator_not_prefix)
  have "\<not> contains separator cs" using Cons.prems(1) by simp
  moreover have "\<not> suffix '' |'' cs" using Cons.prems(2) by (auto simp: suffix_Cons)
  ultimately have "split_from separator (c # cur) (cs @ separator @ rest) =
      (rev (c # cur) @ cs) # split_from separator [] rest"
    by (rule Cons.IH)
  with np show ?case by simp
qed

lemma split_join:
  "ts \<noteq> [] \<Longrightarrow> list_all (\<lambda>t. \<not> contains separator t) ts \<Longrightarrow>
   list_all (\<lambda>t. \<not> suffix '' |'' t) (butlast ts) \<Longrightarrow>
   split separator (join separator ts) = ts"
proof (induction ts)
  case Nil
  then show ?case by simp
next
  case (Cons x xs)
  show ?case
  proof (cases xs)
    case Nil
    have "separator \<noteq> []" by (simp add: separator_def)
    then have "split_from separator [] x = [rev [] @ x]"
      using Cons.prems(2) by (intro split_from_no_separator) simp_all
    with Nil show ?thesis by (simp add: split_def)
  next
    case (Cons y ys)
    have "split_from separator [] (x @ separator @ join separator (y # ys)) =
        (rev [] @ x) # split_from separator [] (join separator (y # ys))"
      using Cons.prems Cons by (intro split_from_at_separator) simp_all
    moreover have "split separator (join separator xs) = xs"
      using Cons.prems Cons by (intro Cons.IH) simp_all
    ultimately show ?thesis using Cons by (simp add: split_def)
  qed
qed

text \<open>
  C9, as stated: splitting the exported heading field recovers the heading texts whenever
  no text contains the delimiter, the empty sequence included. (Splitting is \<^verbatim>\<open>str.split\<close>, the
  function the crawler itself uses to cut the fragment and the query off a URL.) The empty sequence is
  exported as the empty string, which splits into one empty text; and the texts \<open>x |\<close> and
  \<open>y\<close>, neither of which contains the delimiter, are exported as \<open>x | | y\<close>, which splits
  into \<open>x\<close> and \<open>| y\<close>.
\<close>

theorem roundtrip_fails_on_empty_sequence:
  "join_heading (Texts []) = Flat [] \<and>
   split separator [] = [[]] \<and>
   list_all (\<lambda>t. \<not> contains separator t) [''x |'', ''y''] \<and>
   join_heading (Texts [''x |'', ''y'']) = Flat ''x | | y'' \<and>
   split separator ''x | | y'' = [''x'', ''| y'']"
  by code_simp

text \<open>
  C9, amended. For a heading sequence that is not empty, in which no text contains the
  delimiter and no text but the last ends with a space followed by a pipe, splitting the
  exported string on the delimiter gives back the sequence.
\<close>

theorem heading_roundtrip:
  assumes "ts \<noteq> []"
    and "list_all (\<lambda>t. \<not> contains separator t) ts"
    and "list_all (\<lambda>t. \<not> suffix '' |'' t) (butlast ts)"
  shows "(case join_heading (Texts ts) of Flat s \<Rightarrow> split separator s = ts | Texts us \<Rightarrow> False)"
  using split_join [OF assms] by simp

theorem heading_roundtrip_witness:
  "[''Home'', ''About us'', ''x |''] \<noteq> [] \<and>
   join_heading (Texts [''Home'', ''About us'', ''x |'']) = Flat ''Home | About us | x |'' \<and>
   split separator ''Home | About us | x |'' = [''Home'', ''About us'', ''x |'']"
proof -
  have a: "[''Home'', ''About us'', ''x |''] \<noteq> []" by simp
  have b: "list_all (\<lambda>t. \<not> contains separator t) [''Home'', ''About us'', ''x |'']" by code_simp
  have c: "list_all (\<lambda>t. \<not> suffix '' |'' t) (butlast [''Home'', ''About us'', ''x |''])" by code_simp
  have j: "join_heading (Texts [''Home'', ''About us'', ''x |'']) = Flat ''Home | About us | x |''" by code_simp
  from heading_roundtrip [OF a b c] show ?thesis unfolding j by simp
qed

lemma failed_open_keeps_data:
  "fst (fs_open env filename (world s)) = Inl e \<Longrightarrow>
   data (after (export_to_csv env filename s)) = data s"
  by (auto simp: export_to_csv_def split: prod.splits sum.splits)

text \<open>
  C10, as stated: after a call with records, every heading field is the join of its
  previous value. When the file cannot be opened the exception leaves the \<^verbatim>\<open>try\<close> block
  before the loop that flattens the records, and the heading fields are still lists.
\<close>

theorem failed_open_leaves_records:
  "data (crawled_one [''A'', ''B'']) \<noteq> [] \<and>
   map h1 (data (crawled_one [''A'', ''B''])) = [Texts [''A'', ''B'']] \<and>
   map h1 (data (after (export_to_csv (readonly_env example_site) ''out.csv''
     (crawled_one [''A'', ''B''])))) = [Texts [''A'', ''B'']] \<and>
   join_heading (Texts [''A'', ''B'']) = Flat ''A | B''"
  by code_simp

text \<open>
  C10, amended. When there are records and the file is opened, the records are
  flattened in place, also when writing the rows fails afterwards: each heading field
  becomes the join of its previous value with the separator, a list of texts being joined
  text by text and a string character by character, and every other field stays. So a
  second export does not write what the first one wrote: the heading \<open>AB\<close> is written as
  \<open>AB\<close> by the first export and as \<open>A | B\<close> by the second.
\<close>

theorem export_flattens_in_place:
  assumes "data s \<noteq> []" and "fst (fs_open env filename (world s)) = Inr ()"
  shows "data (after (export_to_csv env filename s)) = map flatten_item (data s) \<and>
    list_all2
      (\<lambda>r r'. h1 r' = join_heading (h1 r) \<and> h2 r' = join_heading (h2 r) \<and>
         h3_plus r' = join_heading (h3_plus r) \<and> url r' = url r \<and> title r' = title r \<and>
         meta_description r' = meta_description r \<and> body_text r' = body_text r \<and>
         date_crawled r' = date_crawled r \<and> errors r' = errors r)
      (data s) (data (after (export_to_csv env filename s))) \<and>
    join_heading (Texts ts) = Flat (join '' | '' ts) \<and>
    join_heading (Flat x) = Flat (join '' | '' (map (\<lambda>c. [c]) x)) \<and>
    map (map h1 \<circ> snd)
      (world (after (export_to_csv (site_env example_site) ''out.csv''
         (after (export_to_csv (site_env example_site) ''out.csv'' (crawled_one [''AB'']))))))
    = [[Flat ''AB''], [Flat ''A | B'']]"
proof -
  have d: "data (after (export_to_csv env filename s)) = map flatten_item (data s)"
    using assms by (auto simp: export_to_csv_def Let_def split: prod.splits sum.splits)
  have r: "list_all2
      (\<lambda>r r'. h1 r' = join_heading (h1 r) \<and> h2 r' = join_heading (h2 r) \<and>
         h3_plus r' = join_heading (h3_plus r) \<and> url r' = url r \<and> title r' = title r \<and>
         meta_description r' = meta_description r \<and> body_text r' = body_text r \<and>
         date_crawled r' = date_crawled r \<and> errors r' = errors r)
      (data s) (map flatten_item (data s))"
    by (simp add: list.rel_map flatten_item_def list.rel_refl)
  have twice: "map (map h1 \<circ> snd)
      (world (after (export_to_csv (site_env example_site) ''out.csv''
         (after (export_to_csv (site_env example_site) ''out.csv'' (crawled_one [''AB'']))))))
    = [[Flat ''AB''], [Flat ''A | B'']]"
    by code_simp
  show ?thesis using r twice unfolding d by (simp add: separator_def)
qed

theorem export_flattens_in_place_witness:
  "data (crawled_one [''A'', ''B'']) \<noteq> [] \<and>
   fst (fs_open (site_env example_site) ''out.csv'' (world (crawled_one [''A'', ''B'']))) = Inr () \<and>
   data (after (export_to_csv (site_env example_site) ''out.csv'' (crawled_one [''A'', ''B'']))) =
     [(record_with_h1 ''http://x.org/'' [''A'', ''B''])\<lparr>h1 := Flat ''A | B'', h2 := Flat [], h3_plus := Flat []\<rparr>]"
proof -
  let ?s = "crawled_one [''A'', ''B'']"
  have n: "data ?s \<noteq> []" by (simp add: crawled_one_def)
  have o: "fst (fs_open (site_env example_site) ''out.csv'' (world ?s)) = Inr ()"
    by (simp add: site_env_def)
  have f: "map flatten_item (data ?s) =
     [(record_with_h1 ''http://x.org/'' [''A'', ''B''])\<lparr>h1 := Flat ''A | B'', h2 := Flat [], h3_plus := Flat []\<rparr>]"
    by (simp add: crawled_one_def flatten_item_def record_with_h1_def separator_def)
  from export_flattens_in_place [OF n o]
  have "data (after (export_to_csv (site_env example_site) ''out.csv'' ?s)) =
      map flatten_item (data ?s)" by blast
  with n o f show ?thesis by simp
qed

end
